theory Spec2Isabelle
  imports Main "HOL-Library.Word" "HOL-Library.Char_ord"
begin

unbundle bit_operations_syntax

section \<open>Device numbers of \<^verbatim>\<open>tests/lib/bin/mountinfo-tool\<close>\<close>

text \<open>
  \<^verbatim>\<open>class Device(int)\<close> is a Python integer, which has no width, so a device
  number is an \<^typ>\<open>int\<close>. Python's \<^verbatim>\<open><<\<close>, \<^verbatim>\<open>>>\<close>, \<^verbatim>\<open>&\<close> and \<^verbatim>\<open>|\<close> on integers
  are \<^const>\<open>push_bit\<close>, \<^const>\<open>drop_bit\<close>, \<open>AND\<close> and \<open>OR\<close> (two's complement with
  infinitely many sign bits). In \<^verbatim>\<open>minor & (1 << 16) - 1\<close> the subtraction binds
  tighter than \<^verbatim>\<open>&\<close>, so the mask is \<open>(1 << 16) - 1\<close>.
\<close>

definition Device_pack :: "int \<Rightarrow> int \<Rightarrow> int" where
  "Device_pack major minor = (push_bit 16 major) OR (minor AND (push_bit 16 1 - 1))"

definition Device_major :: "int \<Rightarrow> int" where
  "Device_major self = drop_bit 16 self"

definition Device_minor :: "int \<Rightarrow> int" where
  "Device_minor self = self AND (push_bit 16 1 - 1)"

section \<open>Regular expressions, as \<^verbatim>\<open>snap/validate.go\<close> uses Go's \<^verbatim>\<open>regexp\<close> package\<close>

text \<open>
  A Go string is a sequence of bytes and so is a \<^typ>\<open>string\<close> here. Go's matcher reads
  the text rune by rune; every character class of \<^verbatim>\<open>validate.go\<close> modelled below lists
  ASCII characters only, and a rune outside ASCII (or an invalid byte) is made of bytes
  from \<open>0x80\<close> up, none of which is listed by such a class. So a class is matched byte
  by byte here: a listed character is one byte, and where Go matches a negated class
  against a rune outside ASCII, the model matches it against each of that rune's bytes,
  which gives \<^verbatim>\<open>MatchString\<close> the same answer (\<^verbatim>\<open>FindAllString\<close> is only called on
  strings already known to be graphical ASCII).

  The expressions are built from the beginning and end of the text (\<^verbatim>\<open>^\<close> and \<^verbatim>\<open>$\<close>,
  which without the multi-line flag match only there), a class of character ranges
  that may be negated, sequence, \<^verbatim>\<open>?\<close>, \<^verbatim>\<open>{lo,hi}\<close> and \<^verbatim>\<open>+\<close>.
\<close>

type_synonym crange = "char \<times> char"

datatype regex =
    BeginText
  | EndText
  | Cls bool "crange list"
  | Seq regex regex
  | Opt regex
  | Rep nat nat regex
  | Plus regex

text \<open>
  \<open>ends re s i\<close> lists the positions where a match of \<open>re\<close> that starts at position
  \<open>i\<close> of \<open>s\<close> can end, the preferred one first (repetition is greedy). \<open>iter f k\<close>
  runs \<open>f\<close> \<open>k\<close> times in a row. A \<^verbatim>\<open>+\<close> needs at most \<open>length s + 1\<close> rounds.
\<close>

definition in_ranges :: "crange list \<Rightarrow> char \<Rightarrow> bool" where
  "in_ranges rs c = list_ex (\<lambda>(lo, hi). lo \<le> c \<and> c \<le> hi) rs"

primrec iter :: "(nat \<Rightarrow> nat list) \<Rightarrow> nat \<Rightarrow> nat \<Rightarrow> nat list" where
  "iter f 0 i = [i]"
| "iter f (Suc k) i = concat (map (iter f k) (f i))"

primrec ends :: "regex \<Rightarrow> string \<Rightarrow> nat \<Rightarrow> nat list" where
  "ends BeginText s i = (if i = 0 then [i] else [])"
| "ends EndText s i = (if i = length s then [i] else [])"
| "ends (Cls neg rs) s i =
     (if i < length s \<and> (in_ranges rs (s ! i) \<noteq> neg) then [Suc i] else [])"
| "ends (Seq r1 r2) s i = concat (map (ends r2 s) (ends r1 s i))"
| "ends (Opt r) s i = ends r s i @ [i]"
| "ends (Rep lo hi r) s i = concat (map (\<lambda>k. iter (ends r s) k i) (rev [lo..<Suc hi]))"
| "ends (Plus r) s i = concat (map (\<lambda>k. iter (ends r s) k i) (rev [1..<Suc (Suc (length s))]))"

text \<open>\<^verbatim>\<open>MatchString\<close> reports whether the text has a match starting anywhere.\<close>

definition MatchString :: "regex \<Rightarrow> string \<Rightarrow> bool" where
  "MatchString re s = list_ex (\<lambda>i. ends re s i \<noteq> []) [0..<Suc (length s)]"

text \<open>
  \<^verbatim>\<open>FindAllString(s, -1)\<close> returns the successive non-overlapping matches, leftmost
  first. The only expression it is used with, \<open>re_invalidMiddleVersionChars\<close>, never
  matches the empty string, so the branch for an empty match is never taken by it.
\<close>

function find_from :: "regex \<Rightarrow> string \<Rightarrow> nat \<Rightarrow> string list" where
  "find_from re s i =
     (if length s < i then []
      else case ends re s i of
             [] \<Rightarrow> find_from re s (Suc i)
           | j # _ \<Rightarrow>
               if i < j then take (j - i) (drop i s) # find_from re s j
               else [] # find_from re s (Suc i))"
  by pat_completeness auto
termination
  by (relation "measure (\<lambda>(re, s, i). Suc (length s) - i)") auto

declare find_from.simps [simp del]

definition FindAllString :: "regex \<Rightarrow> string \<Rightarrow> string list" where
  "FindAllString re s = find_from re s 0"

subsection \<open>The expressions of \<^verbatim>\<open>ValidateVersion\<close>\<close>

text \<open>
  \<^verbatim>\<open>isValidVersion = ^[a-zA-Z0-9](?:[a-zA-Z0-9:.+~-]{0,30}[a-zA-Z0-9+~])?$\<close>,
  \<^verbatim>\<open>isNonGraphicalASCII = [^[:graph:]]\<close> (\<^verbatim>\<open>[:graph:]\<close> is \<^verbatim>\<open>[!-~]\<close>),
  \<^verbatim>\<open>isInvalidFirstVersionChar = ^[^a-zA-Z0-9]\<close>,
  \<^verbatim>\<open>isInvalidLastVersionChar = [^a-zA-Z0-9+~]$\<close> and
  \<^verbatim>\<open>invalidMiddleVersionChars = [^a-zA-Z0-9:.+~-]+\<close>.
\<close>

definition alnum :: "crange list" where
  "alnum = [(CHR ''a'', CHR ''z''), (CHR ''A'', CHR ''Z''), (CHR ''0'', CHR ''9'')]"

definition middle :: "crange list" where
  "middle = alnum @ [(CHR '':'', CHR '':''), (CHR ''.'', CHR ''.''), (CHR ''+'', CHR ''+''),
                     (CHR ''~'', CHR ''~''), (CHR ''-'', CHR ''-'')]"

definition final :: "crange list" where
  "final = alnum @ [(CHR ''+'', CHR ''+''), (CHR ''~'', CHR ''~'')]"

definition re_isValidVersion :: regex where
  "re_isValidVersion =
     Seq BeginText
       (Seq (Cls False alnum)
         (Seq (Opt (Seq (Rep 0 30 (Cls False middle)) (Cls False final))) EndText))"

definition re_isNonGraphicalASCII :: regex where
  "re_isNonGraphicalASCII = Cls True [(CHR ''!'', CHR ''~'')]"

definition re_isInvalidFirstVersionChar :: regex where
  "re_isInvalidFirstVersionChar = Seq BeginText (Cls True alnum)"

definition re_isInvalidLastVersionChar :: regex where
  "re_isInvalidLastVersionChar = Seq (Cls True final) EndText"

definition re_invalidMiddleVersionChars :: regex where
  "re_invalidMiddleVersionChars = Plus (Cls True middle)"

definition isValidVersion :: "string \<Rightarrow> bool" where
  "isValidVersion = MatchString re_isValidVersion"

definition isNonGraphicalASCII :: "string \<Rightarrow> bool" where
  "isNonGraphicalASCII = MatchString re_isNonGraphicalASCII"

definition isInvalidFirstVersionChar :: "string \<Rightarrow> bool" where
  "isInvalidFirstVersionChar = MatchString re_isInvalidFirstVersionChar"

definition isInvalidLastVersionChar :: "string \<Rightarrow> bool" where
  "isInvalidLastVersionChar = MatchString re_isInvalidLastVersionChar"

definition invalidMiddleVersionChars :: "string \<Rightarrow> string list" where
  "invalidMiddleVersionChars = FindAllString re_invalidMiddleVersionChars"

subsection \<open>\<^verbatim>\<open>ValidateVersion\<close>\<close>

text \<open>
  The Go function returns \<^verbatim>\<open>nil\<close> (here \<open>None\<close>) or an error built with
  \<^verbatim>\<open>errors.New\<close> or \<^verbatim>\<open>fmt.Errorf\<close>. The error keeps what its message is formatted
  from: the quoted version and the list of reasons, in the order the code appends
  them. The final \<^verbatim>\<open>switch\<close> on the number of reasons only chooses the punctuation of
  the message, so its three branches are the one value \<open>InvalidVersion\<close>.
\<close>

datatype reason =
    TooLong nat
  | BadFirst char
  | BadLast char
  | BadMiddle "string list"

datatype version_error =
    EmptyVersion
  | NotPrintable string
  | InvalidVersion string "reason list"

definition ValidateVersion :: "string \<Rightarrow> version_error option" where
  "ValidateVersion version =
     (if \<not> isValidVersion version then
        if length version = 0 then Some EmptyVersion
        else if isNonGraphicalASCII version then Some (NotPrintable version)
        else
          let reasons = [];
              reasons = (if 32 < length version
                         then reasons @ [TooLong (length version)] else reasons);
              reasons = (if isInvalidFirstVersionChar version
                         then reasons @ [BadFirst (version ! 0)] else reasons);
              reasons =
                (if 1 < length version then
                   let reasons = (if isInvalidLastVersionChar version
                                  then reasons @ [BadLast (version ! (length version - 1))]
                                  else reasons)
                   in if 2 < length version then
                        let all = invalidMiddleVersionChars
                                    (take (length version - 1 - 1) (drop 1 version))
                        in if 0 < length all then reasons @ [BadMiddle all] else reasons
                      else reasons
                 else reasons)
          in Some (InvalidVersion version reasons)
      else None)"

subsection \<open>The shape of a valid version, in words\<close>

text \<open>
  The reading of the expression \<^verbatim>\<open>isValidVersion\<close> that the property below compares
  with the code: a version is not empty, has at most 32 characters, starts with an
  ASCII letter or digit, ends (when it has more than one character) with an ASCII
  letter or digit or one of \<^verbatim>\<open>+\<close> and \<^verbatim>\<open>~\<close>, and has only characters of
  \<^verbatim>\<open>[a-zA-Z0-9:.+~-]\<close> strictly between its first and its last character. The
  predicate reads the bytes of the string. A string with a character outside ASCII
  has a byte from \<open>0x80\<close> up at its start, at its end or in between, and fails the
  conditions read on bytes as it fails them read on characters; on every other string
  bytes and characters are the same.
\<close>

definition ascii_alnum :: "char \<Rightarrow> bool" where
  "ascii_alnum c \<longleftrightarrow>
     (CHR ''a'' \<le> c \<and> c \<le> CHR ''z'') \<or> (CHR ''A'' \<le> c \<and> c \<le> CHR ''Z'') \<or>
     (CHR ''0'' \<le> c \<and> c \<le> CHR ''9'')"

definition version_last_char :: "char \<Rightarrow> bool" where
  "version_last_char c \<longleftrightarrow> ascii_alnum c \<or> c = CHR ''+'' \<or> c = CHR ''~''"

definition version_interior_char :: "char \<Rightarrow> bool" where
  "version_interior_char c \<longleftrightarrow>
     ascii_alnum c \<or> c = CHR '':'' \<or> c = CHR ''.'' \<or> c = CHR ''+'' \<or> c = CHR ''~'' \<or>
     c = CHR ''-''"

definition valid_version_spec :: "string \<Rightarrow> bool" where
  "valid_version_spec v \<longleftrightarrow>
     v \<noteq> [] \<and> length v \<le> 32 \<and> ascii_alnum (hd v) \<and>
     (1 < length v \<longrightarrow> version_last_char (last v)) \<and>
     list_all version_interior_char (butlast (tl v))"

section \<open>The trust subsystem: assertions, type registry, trust database, chain verifier\<close>

text \<open>
  The specification (sections 3 and 4) describes the assertion document, the type
  registry, the trust database and the chain verifier; the code of these (the
  assertion package of the repository) is not part of the sources this development is
  based on. Every definition of this section is therefore written from the
  specification's words, and says so. What the specification leaves to an external
  facility or to a static table (signature verification, the canonical encoding that
  is signed, the public key an account-key embeds, the table of type descriptors, the
  trusted root keys) is a field of the configuration, so that every property holds for
  any choice of it.
\<close>

subsection \<open>Data model (specification, section 3)\<close>

text \<open>Modelled from the spec: the fixed enumerated set of assertion types
  (``account, account-key, model, serial, serial-request, validation-set'').\<close>

datatype assertion_type = Account | AccountKey | Model | Serial | SerialRequest | ValidationSet

text \<open>Modelled from the spec: a header value is a string, an integer or a list of
  strings.\<close>

datatype header_value = HString string | HInteger int | HList "string list"

text \<open>Modelled from the spec: the Assertion entity. The headers that every assertion
  carries and that the trust rules read (\<^verbatim>\<open>authority-id\<close>, the Key ID of the signer in
  \<^verbatim>\<open>sign-key\<close>, and the non-negative \<^verbatim>\<open>revision\<close>, 0 when not given) are fields of their
  own; \<open>headers\<close> holds the others. The body is optional, the signature is bytes.\<close>

record assertion =
  atype :: assertion_type
  authority_id :: string
  sign_key :: string
  revision :: nat
  headers :: "(string \<times> header_value) list"
  body :: "string option"
  signature_bytes :: string

text \<open>Modelled from the spec: the error kinds of section 7 that the trust database and
  the chain verifier return.\<close>

datatype error =
    ParseError
  | InvalidSignature
  | MissingPrerequisite
  | BrokenChain
  | ConsistencyViolation
  | RevisionConflict
  | NotFound

text \<open>Modelled from the spec: the Assertion Type descriptor: name, ordered list of
  primary-key header names, whether a body is required (\<open>Some True\<close>), forbidden
  (\<open>Some False\<close>) or free, whether the type is sequence-forming, and the consistency
  predicate that is run against the trust database.\<close>

record type_descriptor =
  type_name :: string
  primary_key_headers :: "string list"
  body_rule :: "bool option"
  sequence_forming :: bool
  consistent :: "assertion list \<Rightarrow> assertion \<Rightarrow> bool"

text \<open>Modelled from the spec: the process-wide configuration, fixed at construction:
  the type registry (\<^verbatim>\<open>describe\<close>, total on the enumerated types), the trusted root keys
  (Key ID and public key, held outside the database), and the external key-management
  facility: the canonical encoding that is signed, signature verification (public
  key, signed bytes, signature bytes), and the public key embedded in an account-key
  assertion.\<close>

record config =
  describe :: "assertion_type \<Rightarrow> type_descriptor"
  trusted_roots :: "(string \<times> string) list"
  canonical :: "assertion \<Rightarrow> string"
  signature_verifies :: "string \<Rightarrow> string \<Rightarrow> string \<Rightarrow> bool"
  embedded_key :: "assertion \<Rightarrow> string"

text \<open>Modelled from the spec: the derived primary key, the ordered tuple of the values
  of the type's primary-key headers (\<open>None\<close> for a header the assertion lacks).\<close>

definition primary_key :: "config \<Rightarrow> assertion \<Rightarrow> header_value option list" where
  "primary_key cfg a = map (map_of (headers a)) (primary_key_headers (describe cfg (atype a)))"

text \<open>Modelled from the spec: the pair (type, primary key) that identifies an assertion
  in the trust database.\<close>

definition ident :: "config \<Rightarrow> assertion \<Rightarrow> assertion_type \<times> header_value option list" where
  "ident cfg a = (atype a, primary_key cfg a)"

text \<open>Modelled from the spec: the sequence number of an assertion of a sequence-forming
  type: the primary key includes it; it is taken to be the last component, an integer
  (\<open>None\<close> when the assertion has no such component).\<close>

definition sequence_number :: "config \<Rightarrow> assertion \<Rightarrow> int option" where
  "sequence_number cfg a =
     (case rev (primary_key cfg a) of
        Some (HInteger n) # _ \<Rightarrow> Some n
      | _ \<Rightarrow> None)"

text \<open>Modelled from the spec: the subject key of an assertion of a sequence-forming
  type: the primary key without the sequence number.\<close>

definition subject_key :: "config \<Rightarrow> assertion \<Rightarrow> header_value option list" where
  "subject_key cfg a = butlast (primary_key cfg a)"

text \<open>Modelled from the spec: whether the assertion's signature verifies against a
  public key: the signature is over the canonical encoding of type, headers and body.\<close>

definition signed_by :: "config \<Rightarrow> string \<Rightarrow> assertion \<Rightarrow> bool" where
  "signed_by cfg pk a = signature_verifies cfg pk (canonical cfg a) (signature_bytes a)"

subsection \<open>Trust database lookups (specification, section 4.4)\<close>

text \<open>Modelled from the spec: \<^verbatim>\<open>find\<close> of the trust database, whose code is missing:
  the database is a store of assertions, one per record; \<^verbatim>\<open>find\<close> is the exact
  primary-key lookup and fails with \<open>NotFound\<close>.\<close>

definition db_find ::
  "config \<Rightarrow> assertion list \<Rightarrow> assertion_type \<Rightarrow> header_value option list \<Rightarrow> error + assertion"
where
  "db_find cfg db t pk =
     (case filter (\<lambda>a. ident cfg a = (t, pk)) db of
        [] \<Rightarrow> Inl NotFound
      | a # _ \<Rightarrow> Inr a)"

text \<open>Modelled from the spec: the entry with the lowest sequence number of a list of
  (sequence number, assertion) pairs (``the lowest stored sequence number'').\<close>

fun lowest :: "(int \<times> assertion) list \<Rightarrow> (int \<times> assertion) option" where
  "lowest [] = None"
| "lowest (x # xs) =
     (case lowest xs of
        None \<Rightarrow> Some x
      | Some y \<Rightarrow> if fst x \<le> fst y then Some x else Some y)"

text \<open>Modelled from the spec: the entry with the highest sequence number (``the
  latest'').\<close>

fun highest :: "(int \<times> assertion) list \<Rightarrow> (int \<times> assertion) option" where
  "highest [] = None"
| "highest (x # xs) =
     (case highest xs of
        None \<Rightarrow> Some x
      | Some y \<Rightarrow> if fst y \<le> fst x then Some x else Some y)"

text \<open>Modelled from the spec: the stored assertions of a type for a subject, each with
  its sequence number.\<close>

definition sequence_of ::
  "config \<Rightarrow> assertion list \<Rightarrow> assertion_type \<Rightarrow> header_value option list \<Rightarrow> (int \<times> assertion) list"
where
  "sequence_of cfg db t subject =
     concat (map (\<lambda>a. case sequence_number cfg a of
                         Some n \<Rightarrow> if atype a = t \<and> subject_key cfg a = subject then [(n, a)] else []
                       | None \<Rightarrow> [])
                 db)"

text \<open>Modelled from the spec: \<^verbatim>\<open>findSequence(type, subjectKey, after)\<close> of the trust
  database, whose code is missing: for a sequence-forming type, the stored assertion
  with the lowest sequence number strictly greater than \<open>after\<close>, or the latest when
  \<open>after\<close> is unset; \<open>NotFound\<close> otherwise.\<close>

definition db_find_sequence ::
  "config \<Rightarrow> assertion list \<Rightarrow> assertion_type \<Rightarrow> header_value option list \<Rightarrow> int option
     \<Rightarrow> error + assertion"
where
  "db_find_sequence cfg db t subject after =
     (if \<not> sequence_forming (describe cfg t) then Inl NotFound
      else
        case (case after of
                None \<Rightarrow> highest (sequence_of cfg db t subject)
              | Some n \<Rightarrow> lowest (filter (\<lambda>(m, a). n < m) (sequence_of cfg db t subject))) of
          None \<Rightarrow> Inl NotFound
        | Some (m, a) \<Rightarrow> Inr a)"

subsection \<open>Chain verifier (specification, section 4.3)\<close>

text \<open>Modelled from the spec: the walk of the chain verifier, whose code is missing.
  Starting from the
  candidate \<open>c\<close>: when its signer is a trusted root, its signature is verified against
  the root key, its type's consistency predicate is applied and the walk ends.
  Otherwise \<^verbatim>\<open>sign-key\<close> is resolved to an account-key assertion in the database
  (\<open>MissingPrerequisite\<close> if absent), the signature is verified against the embedded
  public key (\<open>InvalidSignature\<close>), the consistency predicate is applied
  (\<open>ConsistencyViolation\<close>), the account-key's \<^verbatim>\<open>authority-id\<close> is resolved to an
  account assertion (a missing link is \<open>BrokenChain\<close>) and the walk goes on from that
  account, unless it was visited before (a cycle is \<open>BrokenChain\<close>). Each lookup reads
  the database as it is now. The result is the verified chain.\<close>

function verify_chain ::
  "config \<Rightarrow> assertion list \<Rightarrow> (assertion_type \<times> header_value option list) list \<Rightarrow> assertion
     \<Rightarrow> error + assertion list"
where
  "verify_chain cfg db visited c =
     (case map_of (trusted_roots cfg) (sign_key c) of
        Some pk \<Rightarrow>
          if \<not> signed_by cfg pk c then Inl InvalidSignature
          else if \<not> consistent (describe cfg (atype c)) db c then Inl ConsistencyViolation
          else Inr [c]
      | None \<Rightarrow>
          (case db_find cfg db AccountKey [Some (HString (sign_key c))] of
             Inl e \<Rightarrow> Inl MissingPrerequisite
           | Inr k \<Rightarrow>
               if \<not> signed_by cfg (embedded_key cfg k) c then Inl InvalidSignature
               else if \<not> consistent (describe cfg (atype c)) db c then Inl ConsistencyViolation
               else
                 (case db_find cfg db Account [Some (HString (authority_id k))] of
                    Inl e \<Rightarrow> Inl BrokenChain
                  | Inr acc \<Rightarrow>
                      if ident cfg acc \<in> set visited then Inl BrokenChain
                      else
                        (case verify_chain cfg db (ident cfg acc # visited) acc of
                           Inl e \<Rightarrow> Inl e
                         | Inr chain \<Rightarrow> Inr (c # k # chain)))))"
  by pat_completeness auto
termination
proof (relation "measure (\<lambda>(cfg, db, visited, c).
                   length (filter (\<lambda>a. ident cfg a \<notin> set visited) db))")
  show "wf (measure (\<lambda>(cfg, db, visited, c).
               length (filter (\<lambda>a. ident cfg a \<notin> set visited) db)))"
    by simp
next
  fix cfg :: config and db :: "assertion list"
    and visited :: "(assertion_type \<times> header_value option list) list"
    and c k acc :: assertion
  assume found: "db_find cfg db Account [Some (HString (authority_id k))] = Inr acc"
    and fresh: "ident cfg acc \<notin> set visited"
  from found obtain rest where
    "filter (\<lambda>a. ident cfg a = (Account, [Some (HString (authority_id k))])) db = acc # rest"
    by (auto simp: db_find_def split: list.splits)
  then have "acc \<in> set (filter (\<lambda>a. ident cfg a = (Account, [Some (HString (authority_id k))])) db)"
    by simp
  then have mem: "acc \<in> set db" by simp
  have "length (filter (\<lambda>a. ident cfg a \<notin> set (ident cfg acc # visited)) db)
          < length (filter (\<lambda>a. ident cfg a \<notin> set visited) db)"
  proof -
    let ?unvisited = "filter (\<lambda>a. ident cfg a \<notin> set visited) db"
    have split: "filter (\<lambda>a. ident cfg a \<notin> set (ident cfg acc # visited)) db
            = filter (\<lambda>a. ident cfg a \<noteq> ident cfg acc) ?unvisited"
      by (auto intro: filter_cong)
    have "acc \<in> set ?unvisited"
      using mem fresh by simp
    then have "length (filter (\<lambda>a. ident cfg a \<noteq> ident cfg acc) ?unvisited) < length ?unvisited"
      by (rule length_filter_less) simp
    then show ?thesis
      by (simp only: split)
  qed
  then show "((cfg, db, ident cfg acc # visited, acc), (cfg, db, visited, c))
               \<in> measure (\<lambda>(cfg, db, visited, c).
                    length (filter (\<lambda>a. ident cfg a \<notin> set visited) db))"
    by simp
qed

declare verify_chain.simps [simp del]

text \<open>Modelled from the spec: \<^verbatim>\<open>verify(assertion, trustedRoots, database)\<close>; the trusted
  roots are in the configuration.\<close>

definition verify :: "config \<Rightarrow> assertion list \<Rightarrow> assertion \<Rightarrow> error + assertion list" where
  "verify cfg db a = verify_chain cfg db [] a"

subsection \<open>Adding to the trust database (specification, section 4.4)\<close>

text \<open>Modelled from the spec: the operations of the trust database's contract: \<^verbatim>\<open>add\<close>,
  \<^verbatim>\<open>find\<close> and \<^verbatim>\<open>findSequence\<close> with their arguments.\<close>

datatype operation =
    Add assertion
  | Find assertion_type "header_value option list"
  | FindSequence assertion_type "header_value option list" "int option"

text \<open>Modelled from the spec: what an operation gives back to its caller: success of
  an \<^verbatim>\<open>add\<close>, the assertion found, or the error it fails with.\<close>

datatype outcome = Added | Found assertion | Fails error

text \<open>Modelled from the spec: \<^verbatim>\<open>add\<close> of the trust database, whose code is missing, as
  a transition of the database: the outcome for the caller and the database afterwards. The steps, in the order given: verify the
  signature chain; check the primary-key/revision invariant (a revision not above the
  stored one is a \<open>RevisionConflict\<close>); run the type's consistency predicate; only then
  make the assertion visible, in place of the revision it supersedes. The database is
  the store of retained assertions, which lookups read; an archive of superseded
  revisions, which the specification allows, is no part of it.\<close>

definition db_add :: "config \<Rightarrow> assertion list \<Rightarrow> assertion \<Rightarrow> outcome \<times> assertion list" where
  "db_add cfg db a =
     (case verify cfg db a of
        Inl e \<Rightarrow> (Fails e, db)
      | Inr chain \<Rightarrow>
          if (case db_find cfg db (atype a) (primary_key cfg a) of
                Inl e \<Rightarrow> False
              | Inr old \<Rightarrow> revision a \<le> revision old)
          then (Fails RevisionConflict, db)
          else if \<not> consistent (describe cfg (atype a)) db a then (Fails ConsistencyViolation, db)
          else (Added, a # filter (\<lambda>b. ident cfg b \<noteq> ident cfg a) db))"

text \<open>Modelled from the spec: one operation on the database: the outcome for the caller
  and the database afterwards.\<close>

fun step :: "config \<Rightarrow> assertion list \<Rightarrow> operation \<Rightarrow> outcome \<times> assertion list" where
  "step cfg db (Add a) = db_add cfg db a"
| "step cfg db (Find t pk) =
     ((case db_find cfg db t pk of Inl e \<Rightarrow> Fails e | Inr a \<Rightarrow> Found a), db)"
| "step cfg db (FindSequence t subject after) =
     ((case db_find_sequence cfg db t subject after of Inl e \<Rightarrow> Fails e | Inr a \<Rightarrow> Found a), db)"

text \<open>Modelled from the spec: the database after a sequence of operations, each
  applied to the database the one before left.\<close>

fun run :: "config \<Rightarrow> assertion list \<Rightarrow> operation list \<Rightarrow> assertion list" where
  "run cfg db [] = db"
| "run cfg db (op # ops) = run cfg (snd (step cfg db op)) ops"

text \<open>Modelled from the spec: the assertions that a sequence of operations got accepted
  (``the highest revision accepted so far'' ranges over these).\<close>

fun accepted :: "config \<Rightarrow> assertion list \<Rightarrow> operation list \<Rightarrow> assertion list" where
  "accepted cfg db [] = []"
| "accepted cfg db (Add a # ops) =
     (if fst (db_add cfg db a) = Added then [a] else []) @ accepted cfg (snd (db_add cfg db a)) ops"
| "accepted cfg db (op # ops) = accepted cfg (snd (step cfg db op)) ops"

subsection \<open>An example configuration and example assertions\<close>

text \<open>
  Example inputs, on which the properties are evaluated; no property depends on them.
  The registry is in the style of the specification's examples (a serial must
  reference an existing model; validation sets form a sequence); there is one trusted
  root key; the key-management facility is a stand-in in which the signature of a
  message under a public key is the key, a colon and the message.
\<close>

text \<open>Example input: a table of type descriptors.\<close>

definition example_describe :: "assertion_type \<Rightarrow> type_descriptor" where
  "example_describe t =
     (case t of
        Account \<Rightarrow>
          \<lparr>type_name = ''account'', primary_key_headers = [''account-id''],
           body_rule = None, sequence_forming = False, consistent = (\<lambda>db a. True)\<rparr>
      | AccountKey \<Rightarrow>
          \<lparr>type_name = ''account-key'', primary_key_headers = [''public-key-sha3-384''],
           body_rule = Some True, sequence_forming = False, consistent = (\<lambda>db a. True)\<rparr>
      | Model \<Rightarrow>
          \<lparr>type_name = ''model'', primary_key_headers = [''brand-id'', ''model''],
           body_rule = None, sequence_forming = False, consistent = (\<lambda>db a. True)\<rparr>
      | Serial \<Rightarrow>
          \<lparr>type_name = ''serial'', primary_key_headers = [''brand-id'', ''model'', ''serial''],
           body_rule = None, sequence_forming = False,
           consistent = (\<lambda>db a. list_ex (\<lambda>m. atype m = Model \<and>
                            map_of (headers m) ''brand-id'' = map_of (headers a) ''brand-id'' \<and>
                            map_of (headers m) ''model'' = map_of (headers a) ''model'') db)\<rparr>
      | SerialRequest \<Rightarrow>
          \<lparr>type_name = ''serial-request'', primary_key_headers = [],
           body_rule = None, sequence_forming = False, consistent = (\<lambda>db a. True)\<rparr>
      | ValidationSet \<Rightarrow>
          \<lparr>type_name = ''validation-set'',
           primary_key_headers = [''account-id'', ''name'', ''sequence''],
           body_rule = Some False, sequence_forming = True, consistent = (\<lambda>db a. True)\<rparr>)"

text \<open>Example input: the configuration with that table, one trusted root and the stand-in
  key-management facility.\<close>

definition example_config :: config where
  "example_config =
     \<lparr>describe = example_describe,
      trusted_roots = [(''root-key'', ''ROOT'')],
      canonical = (\<lambda>a. type_name (example_describe (atype a)) @ ''/'' @ authority_id a @ ''/'' @
                        concat (map fst (headers a))),
      signature_verifies = (\<lambda>pk msg sg. sg = pk @ '':'' @ msg),
      embedded_key = (\<lambda>k. case body k of Some b \<Rightarrow> b | None \<Rightarrow> [])\<rparr>"

text \<open>Example input: signing with the stand-in facility.\<close>

definition example_sign :: "string \<Rightarrow> assertion \<Rightarrow> assertion" where
  "example_sign pk a = a\<lparr>signature_bytes := pk @ '':'' @ canonical example_config a\<rparr>"

text \<open>Example input: an account, signed by the trusted root.\<close>

definition account_canonical :: assertion where
  "account_canonical = example_sign ''ROOT''
     \<lparr>atype = Account, authority_id = ''canonical'', sign_key = ''root-key'', revision = 0,
      headers = [(''account-id'', HString ''canonical'')], body = None, signature_bytes = []\<rparr>"

text \<open>Example input: an account-key of that account, signed by the trusted root; it embeds
  the public key \<^verbatim>\<open>PUB1\<close>.\<close>

definition key_one :: assertion where
  "key_one = example_sign ''ROOT''
     \<lparr>atype = AccountKey, authority_id = ''canonical'', sign_key = ''root-key'', revision = 0,
      headers = [(''public-key-sha3-384'', HString ''key-1'')], body = Some ''PUB1'',
      signature_bytes = []\<rparr>"

text \<open>Example input: a model assertion in revision \<open>r\<close>, signed with the key \<^verbatim>\<open>key-1\<close>.\<close>

definition model_widget :: "nat \<Rightarrow> assertion" where
  "model_widget r = example_sign ''PUB1''
     \<lparr>atype = Model, authority_id = ''canonical'', sign_key = ''key-1'', revision = r,
      headers = [(''brand-id'', HString ''canonical''), (''model'', HString ''widget'')],
      body = None, signature_bytes = []\<rparr>"

text \<open>Example input: the validation set \<^verbatim>\<open>base\<close> with sequence number \<open>n\<close>.\<close>

definition validation_set :: "int \<Rightarrow> assertion" where
  "validation_set n = example_sign ''PUB1''
     \<lparr>atype = ValidationSet, authority_id = ''canonical'', sign_key = ''key-1'', revision = 0,
      headers = [(''account-id'', HString ''canonical''), (''name'', HString ''base''),
                 (''sequence'', HInteger n)],
      body = None, signature_bytes = []\<rparr>"

text \<open>Example input: a database that holds the account and its key.\<close>

definition keyed_db :: "assertion list" where
  "keyed_db = [key_one, account_canonical]"

section \<open>Properties of device numbers\<close>

lemma low16_mask: "push_bit 16 (1::int) - 1 = mask 16"
  by (simp add: mask_eq_exp_minus_1 push_bit_eq_mult)

lemma Device_major_pack: "Device_major (Device_pack major minor) = major"
  unfolding Device_major_def Device_pack_def low16_mask
  by (rule bit_eqI) (auto simp add: bit_simps)

lemma Device_minor_pack: "Device_minor (Device_pack major minor) = minor mod 2 ^ 16"
  unfolding Device_minor_def Device_pack_def low16_mask
    take_bit_eq_mod [symmetric] take_bit_eq_mask [symmetric]
  by (rule bit_eqI) (auto simp add: bit_simps)

text \<open>
  Claim C10. For non-negative \<open>major\<close> and \<open>minor\<close>: when \<open>minor < 2 ^ 16\<close>, packing and
  then reading the two components gives back exactly \<open>major\<close> and \<open>minor\<close>; when
  \<open>minor \<ge> 2 ^ 16\<close>, the minor component read back is \<open>minor\<close> reduced modulo \<open>2 ^ 16\<close>
  and the major component is still \<open>major\<close>.
\<close>

theorem Device_pack_roundtrip:
  assumes "0 \<le> major" and "0 \<le> minor"
  shows "(minor < 2 ^ 16 \<longrightarrow>
            Device_major (Device_pack major minor) = major \<and>
            Device_minor (Device_pack major minor) = minor) \<and>
         (2 ^ 16 \<le> minor \<longrightarrow>
            Device_minor (Device_pack major minor) = minor mod 2 ^ 16 \<and>
            Device_major (Device_pack major minor) = major)"
  using assms by (simp add: Device_major_pack Device_minor_pack)

theorem Device_pack_roundtrip_witness:
  "Device_major (Device_pack 8 1) = 8 \<and> Device_minor (Device_pack 8 1) = 1 \<and>
   Device_minor (Device_pack 259 65541) = 5 \<and> Device_major (Device_pack 259 65541) = 259"
  using Device_pack_roundtrip [of 8 1] Device_pack_roundtrip [of 259 65541]
  by simp

section \<open>Properties of \<^verbatim>\<open>ValidateVersion\<close>\<close>

lemma iter_Cls:
  "i \<le> length s \<Longrightarrow> iter (ends (Cls neg rs) s) k i =
     (if i + k \<le> length s \<and> (\<forall>j<k. in_ranges rs (s ! (i + j)) \<noteq> neg) then [i + k] else [])"
proof (induction k arbitrary: i)
  case 0
  then show ?case by simp
next
  case (Suc k)
  show ?case
  proof (cases "i < length s \<and> in_ranges rs (s ! i) \<noteq> neg")
    case True
    have "(\<forall>j<Suc k. in_ranges rs (s ! (i + j)) \<noteq> neg) \<longleftrightarrow>
          (\<forall>j<k. in_ranges rs (s ! (Suc i + j)) \<noteq> neg)"
      using True by (auto simp: less_Suc_eq_0_disj)
    with True Suc.IH [of "Suc i"] show ?thesis by auto
  next
    case False
    then show ?thesis by auto
  qed
qed

lemma ends_Rep_Cls:
  "i \<le> length s \<Longrightarrow> set (ends (Rep lo hi (Cls neg rs)) s i) =
     {i + k | k. lo \<le> k \<and> k \<le> hi \<and> i + k \<le> length s \<and>
                 (\<forall>j<k. in_ranges rs (s ! (i + j)) \<noteq> neg)}"
  by (auto simp: iter_Cls simp del: upt_Suc split: if_splits)

lemma in_alnum: "in_ranges alnum c = ascii_alnum c"
  by (simp add: in_ranges_def alnum_def ascii_alnum_def)

lemma in_final: "in_ranges final c = version_last_char c"
  by (auto simp add: in_ranges_def final_def alnum_def ascii_alnum_def version_last_char_def)

lemma in_middle: "in_ranges middle c = version_interior_char c"
  by (auto simp add: in_ranges_def middle_def alnum_def ascii_alnum_def version_interior_char_def)

lemma MatchString_anchored:
  "MatchString (Seq BeginText r) s \<longleftrightarrow> ends r s 0 \<noteq> []"
proof -
  have "\<And>i. ends (Seq BeginText r) s i = (if i = 0 then ends r s 0 else [])"
    by simp
  then show ?thesis
    unfolding MatchString_def list_ex_iff by (auto simp del: ends.simps upt_Suc)
qed

lemma ends_Seq_EndText:
  "ends (Seq r EndText) s i \<noteq> [] \<longleftrightarrow> length s \<in> set (ends r s i)"
proof -
  have "ends (Seq r EndText) s i \<noteq> [] \<longleftrightarrow> (\<exists>p \<in> set (ends r s i). ends EndText s p \<noteq> [])"
    by (simp only: ends.simps(4) concat_eq_Nil_conv set_map) blast
  also have "\<dots> \<longleftrightarrow> (\<exists>p \<in> set (ends r s i). p = length s)"
    by simp
  also have "\<dots> \<longleftrightarrow> length s \<in> set (ends r s i)"
    by blast
  finally show ?thesis .
qed

lemma ends_Seq_Cls:
  "set (ends (Seq r (Cls neg rs)) s i) =
     {Suc p | p. p \<in> set (ends r s i) \<and> p < length s \<and> in_ranges rs (s ! p) \<noteq> neg}"
  by auto

lemma tail_shape:
  assumes "1 \<le> length s"
  shows "length s \<in> set (ends (Opt (Seq (Rep 0 30 (Cls False middle)) (Cls False final))) s 1) \<longleftrightarrow>
     length s = 1 \<or>
     (2 \<le> length s \<and> length s \<le> 32 \<and> version_last_char (s ! (length s - 1)) \<and>
      (\<forall>j<length s - 2. version_interior_char (s ! (1 + j))))"
    (is "?L \<longleftrightarrow> ?R")
proof -
  let ?body = "Seq (Rep 0 30 (Cls False middle)) (Cls False final)"
  have rep: "set (ends (Rep 0 30 (Cls False middle)) s 1) =
      {1 + k | k. k \<le> 30 \<and> 1 + k \<le> length s \<and> (\<forall>j<k. version_interior_char (s ! (1 + j)))}"
    using assms by (simp only: ends_Rep_Cls in_middle) simp
  have body: "length s \<in> set (ends ?body s 1) \<longleftrightarrow>
      (\<exists>k. k \<le> 30 \<and> Suc (1 + k) = length s \<and> version_last_char (s ! (1 + k)) \<and>
           (\<forall>j<k. version_interior_char (s ! (1 + j))))" (is "?M \<longleftrightarrow> ?N")
  proof
    assume ?M
    then obtain p where p: "length s = Suc p" "p \<in> set (ends (Rep 0 30 (Cls False middle)) s 1)"
      "version_last_char (s ! p)"
      unfolding ends_Seq_Cls in_final by blast
    from p(2) obtain k where "p = 1 + k" "k \<le> 30" "\<forall>j<k. version_interior_char (s ! (1 + j))"
      unfolding rep by blast
    with p show ?N by auto
  next
    assume ?N
    then obtain k where k: "k \<le> 30" "Suc (1 + k) = length s" "version_last_char (s ! (1 + k))"
      "\<forall>j<k. version_interior_char (s ! (1 + j))" by blast
    then have "1 + k \<in> set (ends (Rep 0 30 (Cls False middle)) s 1)"
      unfolding rep by auto
    moreover have "1 + k < length s" using k(2) by arith
    ultimately have "Suc (1 + k) \<in> set (ends ?body s 1)"
      unfolding ends_Seq_Cls in_final using k(3) by blast
    with k(2) show ?M by simp
  qed
  have "set (ends (Opt ?body) s 1) = insert 1 (set (ends ?body s 1))"
    by (simp only: ends.simps(5) set_append list.set) simp
  then have "?L \<longleftrightarrow> length s = 1 \<or> length s \<in> set (ends ?body s 1)"
    by (simp only: insert_iff)
  also have "\<dots> \<longleftrightarrow> ?R"
  proof -
    have "(\<exists>k. k \<le> 30 \<and> Suc (1 + k) = length s \<and> version_last_char (s ! (1 + k)) \<and>
           (\<forall>j<k. version_interior_char (s ! (1 + j)))) \<longleftrightarrow>
          (2 \<le> length s \<and> length s \<le> 32 \<and> version_last_char (s ! (length s - 1)) \<and>
           (\<forall>j<length s - 2. version_interior_char (s ! (1 + j))))" (is "?A \<longleftrightarrow> ?B")
    proof
      assume ?A
      then obtain k where k: "k \<le> 30" "Suc (1 + k) = length s" "version_last_char (s ! (1 + k))"
        "\<forall>j<k. version_interior_char (s ! (1 + j))" by blast
      from k(2) have "k = length s - 2" "1 + k = length s - 1" by arith+
      with k show ?B by auto
    next
      assume b: ?B
      then have "length s - 2 \<le> 30" "Suc (1 + (length s - 2)) = length s"
        "1 + (length s - 2) = length s - 1" by arith+
      with b show ?A by metis
    qed
    with body show ?thesis by simp
  qed
  finally show ?thesis .
qed

lemma ends_Cls_Seq:
  "ends (Seq (Cls neg rs) r) s i =
     (if i < length s \<and> in_ranges rs (s ! i) \<noteq> neg then ends r s (Suc i) else [])"
  by auto

lemma isValidVersion_shape:
  "isValidVersion s \<longleftrightarrow>
     s \<noteq> [] \<and> ascii_alnum (s ! 0) \<and>
     (length s = 1 \<or>
      (2 \<le> length s \<and> length s \<le> 32 \<and> version_last_char (s ! (length s - 1)) \<and>
       (\<forall>j<length s - 2. version_interior_char (s ! (1 + j)))))"
proof -
  let ?tail = "Seq (Opt (Seq (Rep 0 30 (Cls False middle)) (Cls False final))) EndText"
  have "isValidVersion s \<longleftrightarrow> ends (Seq (Cls False alnum) ?tail) s 0 \<noteq> []"
    unfolding isValidVersion_def re_isValidVersion_def by (rule MatchString_anchored)
  also have "\<dots> \<longleftrightarrow> s \<noteq> [] \<and> ascii_alnum (s ! 0) \<and> ends ?tail s 1 \<noteq> []"
    by (simp only: ends_Cls_Seq in_alnum) auto
  also have "\<dots> \<longleftrightarrow> s \<noteq> [] \<and> ascii_alnum (s ! 0) \<and>
      length s \<in> set (ends (Opt (Seq (Rep 0 30 (Cls False middle)) (Cls False final))) s 1)"
    by (simp only: ends_Seq_EndText)
  also have "\<dots> \<longleftrightarrow> s \<noteq> [] \<and> ascii_alnum (s ! 0) \<and>
     (length s = 1 \<or>
      (2 \<le> length s \<and> length s \<le> 32 \<and> version_last_char (s ! (length s - 1)) \<and>
       (\<forall>j<length s - 2. version_interior_char (s ! (1 + j)))))"
  proof (cases "s = []")
    case True
    then show ?thesis by simp
  next
    case False
    then have "1 \<le> length s" by (cases s) auto
    from tail_shape [OF this] show ?thesis by simp
  qed
  finally show ?thesis .
qed

lemma interior_nth:
  "list_all P (butlast (tl v)) \<longleftrightarrow> (\<forall>j<length v - 2. P (v ! (1 + j)))"
proof -
  have "length (butlast (tl v)) = length v - 2" by simp
  moreover have "\<And>j. j < length v - 2 \<Longrightarrow> butlast (tl v) ! j = v ! (1 + j)"
    by (simp add: nth_butlast nth_tl)
  ultimately show ?thesis
    unfolding list_all_iff all_set_conv_all_nth by simp
qed

lemma isValidVersion_spec: "isValidVersion v \<longleftrightarrow> valid_version_spec v"
proof (cases "v = []")
  case True
  then show ?thesis by (simp add: isValidVersion_shape valid_version_spec_def)
next
  case False
  then have hd: "v ! 0 = hd v" and last: "v ! (length v - 1) = last v"
    by (simp_all add: hd_conv_nth last_conv_nth)
  from False have len: "1 \<le> length v" by (cases v) auto
  show ?thesis
    unfolding isValidVersion_shape valid_version_spec_def interior_nth hd last
    using False len by (cases "length v = 1") auto
qed

text \<open>
  Claim C9. \<open>ValidateVersion v\<close> returns \<^verbatim>\<open>nil\<close> exactly when \<open>v\<close> is non-empty, at most
  32 characters long, starts with an ASCII alphanumeric, ends (when longer than one
  character) with an ASCII alphanumeric or \<^verbatim>\<open>+\<close> or \<^verbatim>\<open>~\<close>, and has only characters of
  \<^verbatim>\<open>[a-zA-Z0-9:.+~-]\<close> in its interior; every other string gets an error.
\<close>

theorem ValidateVersion_nil_iff:
  "(ValidateVersion v = None \<longleftrightarrow> valid_version_spec v) \<and>
   (\<not> valid_version_spec v \<longrightarrow> (\<exists>e. ValidateVersion v = Some e))"
  unfolding isValidVersion_spec [symmetric]
  by (simp add: ValidateVersion_def Let_def)

theorem ValidateVersion_nil_iff_witness:
  "valid_version_spec ''1.0+git~2'' \<and> ValidateVersion ''1.0+git~2'' = None \<and>
   \<not> valid_version_spec ''1.0-'' \<and> (\<exists>e. ValidateVersion ''1.0-'' = Some e)"
  using ValidateVersion_nil_iff [of "''1.0+git~2''"] ValidateVersion_nil_iff [of "''1.0-''"]
  by (simp add: valid_version_spec_def ascii_alnum_def version_last_char_def
      version_interior_char_def)

section \<open>Properties of the trust database\<close>

lemma db_find_Inr:
  "db_find cfg db t pk = Inr a \<Longrightarrow> a \<in> set db \<and> ident cfg a = (t, pk)"
proof -
  assume "db_find cfg db t pk = Inr a"
  then obtain rest where "filter (\<lambda>b. ident cfg b = (t, pk)) db = a # rest"
    by (auto simp: db_find_def split: list.splits)
  then have "a \<in> set (filter (\<lambda>b. ident cfg b = (t, pk)) db)"
    by simp
  then show ?thesis by simp
qed

lemma db_find_Inl:
  "db_find cfg db t pk = Inl e \<Longrightarrow> e = NotFound \<and> (\<forall>a\<in>set db. ident cfg a \<noteq> (t, pk))"
  by (auto simp: db_find_def filter_empty_conv split: list.splits)

lemma db_find_unique:
  assumes "distinct (map (ident cfg) db)" and "b \<in> set db" and "ident cfg b = (t, pk)"
  shows "db_find cfg db t pk = Inr b"
proof (cases "db_find cfg db t pk")
  case (Inl e)
  with assms(2,3) show ?thesis by (auto dest: db_find_Inl)
next
  case (Inr a)
  then have "a \<in> set db" "ident cfg a = ident cfg b"
    using assms(3) by (auto dest: db_find_Inr)
  with assms(1,2) have "a = b"
    by (meson distinct_map inj_onD)
  with Inr show ?thesis by simp
qed

lemma db_add_Added:
  "db_add cfg db a = (Added, db') \<Longrightarrow>
     (\<exists>chain. verify cfg db a = Inr chain) \<and>
     consistent (describe cfg (atype a)) db a \<and>
     (\<forall>old. db_find cfg db (atype a) (primary_key cfg a) = Inr old \<longrightarrow> revision old < revision a) \<and>
     db' = a # filter (\<lambda>b. ident cfg b \<noteq> ident cfg a) db"
  by (auto simp: db_add_def split: sum.splits if_splits)

lemma db_add_Fails: "db_add cfg db a = (Fails e, db') \<Longrightarrow> db' = db"
  by (auto simp: db_add_def split: sum.splits if_splits)

lemma db_add_outcome: "fst (db_add cfg db a) = Added \<or> (\<exists>e. fst (db_add cfg db a) = Fails e)"
  by (auto simp: db_add_def split: sum.splits if_splits)

lemma lowest_None: "lowest xs = None \<longleftrightarrow> xs = []"
  by (induction xs) (auto split: option.splits)

lemma lowest_Some:
  "lowest xs = Some x \<Longrightarrow> x \<in> set xs \<and> (\<forall>y\<in>set xs. fst x \<le> fst y)"
proof (induction xs arbitrary: x)
  case Nil
  then show ?case by simp
next
  case (Cons z zs)
  show ?case
  proof (cases "lowest zs")
    case None
    then have "zs = []" by (simp add: lowest_None)
    with Cons.prems show ?thesis by simp
  next
    case (Some y)
    from Cons.IH [OF Some] have y: "y \<in> set zs" "\<forall>w\<in>set zs. fst y \<le> fst w"
      by simp_all
    show ?thesis
    proof (cases "fst z \<le> fst y")
      case True
      with Some Cons.prems have "x = z" by simp
      with True y show ?thesis by fastforce
    next
      case False
      with Some Cons.prems have "x = y" by simp
      with False y show ?thesis by fastforce
    qed
  qed
qed

lemma highest_None: "highest xs = None \<longleftrightarrow> xs = []"
  by (induction xs) (auto split: option.splits)

lemma highest_Some:
  "highest xs = Some x \<Longrightarrow> x \<in> set xs \<and> (\<forall>y\<in>set xs. fst y \<le> fst x)"
proof (induction xs arbitrary: x)
  case Nil
  then show ?case by simp
next
  case (Cons z zs)
  show ?case
  proof (cases "highest zs")
    case None
    then have "zs = []" by (simp add: highest_None)
    with Cons.prems show ?thesis by simp
  next
    case (Some y)
    from Cons.IH [OF Some] have y: "y \<in> set zs" "\<forall>w\<in>set zs. fst w \<le> fst y"
      by simp_all
    show ?thesis
    proof (cases "fst y \<le> fst z")
      case True
      with Some Cons.prems have "x = z" by simp
      with True y show ?thesis by fastforce
    next
      case False
      with Some Cons.prems have "x = y" by simp
      with False y show ?thesis by fastforce
    qed
  qed
qed

lemma sequence_of_iff:
  "(n, a) \<in> set (sequence_of cfg db t subject) \<longleftrightarrow>
     a \<in> set db \<and> atype a = t \<and> subject_key cfg a = subject \<and> sequence_number cfg a = Some n"
  by (auto simp: sequence_of_def split: option.splits if_splits)

lemma find_sequence_after:
  assumes "sequence_forming (describe cfg t)"
  shows "case db_find_sequence cfg db t subject (Some n) of
           Inr a \<Rightarrow>
             (\<exists>m. (m, a) \<in> set (sequence_of cfg db t subject) \<and> n < m \<and>
                  (\<forall>(m', b) \<in> set (sequence_of cfg db t subject). n < m' \<longrightarrow> m \<le> m'))
         | Inl e \<Rightarrow>
             e = NotFound \<and> (\<forall>(m', b) \<in> set (sequence_of cfg db t subject). \<not> n < m')"
proof (cases "lowest (filter (\<lambda>(m, a). n < m) (sequence_of cfg db t subject))")
  case None
  then have "filter (\<lambda>(m, a). n < m) (sequence_of cfg db t subject) = []"
    by (simp add: lowest_None)
  then have "\<forall>(m', b) \<in> set (sequence_of cfg db t subject). \<not> n < m'"
    by (auto simp: filter_empty_conv)
  with None assms show ?thesis
    by (simp add: db_find_sequence_def)
next
  case (Some x)
  obtain m a where x: "x = (m, a)" by (cases x)
  from lowest_Some [OF Some] x
  have "(m, a) \<in> set (sequence_of cfg db t subject)" "n < m"
    "\<forall>(m', b) \<in> set (sequence_of cfg db t subject). n < m' \<longrightarrow> m \<le> m'"
    by auto
  with Some x assms show ?thesis
    by (auto simp: db_find_sequence_def)
qed

lemma find_sequence_latest:
  assumes "sequence_forming (describe cfg t)"
  shows "case db_find_sequence cfg db t subject None of
           Inr a \<Rightarrow>
             (\<exists>m. (m, a) \<in> set (sequence_of cfg db t subject) \<and>
                  (\<forall>(m', b) \<in> set (sequence_of cfg db t subject). m' \<le> m))
         | Inl e \<Rightarrow> e = NotFound \<and> sequence_of cfg db t subject = []"
proof (cases "highest (sequence_of cfg db t subject)")
  case None
  with assms show ?thesis
    by (simp add: db_find_sequence_def highest_None)
next
  case (Some x)
  obtain m a where x: "x = (m, a)" by (cases x)
  from highest_Some [OF Some] x
  have "(m, a) \<in> set (sequence_of cfg db t subject)"
    "\<forall>(m', b) \<in> set (sequence_of cfg db t subject). m' \<le> m"
    by auto
  with Some x assms show ?thesis
    by (auto simp: db_find_sequence_def)
qed

text \<open>
  Claim C7. For a sequence-forming type \<open>t\<close> and a subject: \<^verbatim>\<open>findSequence\<close> with \<open>after\<close>
  set to \<open>n\<close> returns a stored assertion of that type and subject whose sequence number
  is above \<open>n\<close> and is the lowest such among the stored ones, and fails with \<open>NotFound\<close>
  exactly when there is none; with \<open>after\<close> unset it returns the stored one with the
  highest sequence number, and fails with \<open>NotFound\<close> when nothing is stored for the
  subject. In particular, when the sequence numbers stored for the subject are 1, 2
  and 3, \<^verbatim>\<open>findSequence\<close> with \<open>after = 1\<close> returns the assertion with sequence number 2.
\<close>

theorem find_sequence_contract:
  assumes "sequence_forming (describe cfg t)"
  shows "(case db_find_sequence cfg db t subject (Some n) of
            Inr a \<Rightarrow>
              a \<in> set db \<and> atype a = t \<and> subject_key cfg a = subject \<and>
              (\<exists>m. sequence_number cfg a = Some m \<and> n < m \<and>
                 (\<forall>b\<in>set db. \<forall>m'. atype b = t \<and> subject_key cfg b = subject \<and>
                     sequence_number cfg b = Some m' \<and> n < m' \<longrightarrow> m \<le> m'))
          | Inl e \<Rightarrow>
              e = NotFound \<and>
              (\<forall>b\<in>set db. \<forall>m'. atype b = t \<and> subject_key cfg b = subject \<and>
                     sequence_number cfg b = Some m' \<longrightarrow> \<not> n < m')) \<and>
         (case db_find_sequence cfg db t subject None of
            Inr a \<Rightarrow>
              a \<in> set db \<and> atype a = t \<and> subject_key cfg a = subject \<and>
              (\<exists>m. sequence_number cfg a = Some m \<and>
                 (\<forall>b\<in>set db. \<forall>m'. atype b = t \<and> subject_key cfg b = subject \<and>
                     sequence_number cfg b = Some m' \<longrightarrow> m' \<le> m))
          | Inl e \<Rightarrow>
              e = NotFound \<and>
              (\<forall>b\<in>set db. \<forall>m'. \<not> (atype b = t \<and> subject_key cfg b = subject \<and>
                     sequence_number cfg b = Some m'))) \<and>
         (fst ` set (sequence_of cfg db t subject) = {1, 2, 3} \<longrightarrow>
            (\<exists>a. db_find_sequence cfg db t subject (Some 1) = Inr a \<and>
                 a \<in> set db \<and> sequence_number cfg a = Some 2))"
proof (intro conjI impI)
  show "case db_find_sequence cfg db t subject (Some n) of
            Inr a \<Rightarrow>
              a \<in> set db \<and> atype a = t \<and> subject_key cfg a = subject \<and>
              (\<exists>m. sequence_number cfg a = Some m \<and> n < m \<and>
                 (\<forall>b\<in>set db. \<forall>m'. atype b = t \<and> subject_key cfg b = subject \<and>
                     sequence_number cfg b = Some m' \<and> n < m' \<longrightarrow> m \<le> m'))
          | Inl e \<Rightarrow>
              e = NotFound \<and>
              (\<forall>b\<in>set db. \<forall>m'. atype b = t \<and> subject_key cfg b = subject \<and>
                     sequence_number cfg b = Some m' \<longrightarrow> \<not> n < m')"
    using find_sequence_after [OF assms, of db subject n]
    by (cases "db_find_sequence cfg db t subject (Some n)")
       (fastforce simp: sequence_of_iff)+
next
  show "case db_find_sequence cfg db t subject None of
            Inr a \<Rightarrow>
              a \<in> set db \<and> atype a = t \<and> subject_key cfg a = subject \<and>
              (\<exists>m. sequence_number cfg a = Some m \<and>
                 (\<forall>b\<in>set db. \<forall>m'. atype b = t \<and> subject_key cfg b = subject \<and>
                     sequence_number cfg b = Some m' \<longrightarrow> m' \<le> m))
          | Inl e \<Rightarrow>
              e = NotFound \<and>
              (\<forall>b\<in>set db. \<forall>m'. \<not> (atype b = t \<and> subject_key cfg b = subject \<and>
                     sequence_number cfg b = Some m'))"
  proof (cases "db_find_sequence cfg db t subject None")
    case (Inl e)
    with find_sequence_latest [OF assms, of db subject]
    have "e = NotFound" and empty: "set (sequence_of cfg db t subject) = {}" by simp_all
    from empty have "\<forall>b\<in>set db. \<forall>m'. \<not> (atype b = t \<and> subject_key cfg b = subject \<and>
                     sequence_number cfg b = Some m')"
      by (metis empty_iff sequence_of_iff)
    with Inl \<open>e = NotFound\<close> show ?thesis by simp
  next
    case (Inr a)
    with find_sequence_latest [OF assms, of db subject] show ?thesis
      by (fastforce simp: sequence_of_iff)
  qed
next
  assume stored: "fst ` set (sequence_of cfg db t subject) = {1, 2, 3}"
  then have "2 \<in> fst ` set (sequence_of cfg db t subject)" by simp
  then obtain b where b: "(2, b) \<in> set (sequence_of cfg db t subject)" by force
  show "\<exists>a. db_find_sequence cfg db t subject (Some 1) = Inr a \<and>
                 a \<in> set db \<and> sequence_number cfg a = Some 2"
  proof (cases "db_find_sequence cfg db t subject (Some 1)")
    case (Inl e)
    with find_sequence_after [OF assms, of db subject 1] b show ?thesis by fastforce
  next
    case (Inr a)
    with find_sequence_after [OF assms, of db subject 1]
    obtain m where m: "(m, a) \<in> set (sequence_of cfg db t subject)" "1 < m"
      "\<forall>(m', b) \<in> set (sequence_of cfg db t subject). 1 < m' \<longrightarrow> m \<le> m'"
      by auto
    from m(3) b have "m \<le> 2" by fastforce
    with m(2) have "m = 2" by simp
    with m(1) Inr show ?thesis by (auto simp: sequence_of_iff)
  qed
qed

theorem find_sequence_contract_witness:
  "run example_config []
     [Add account_canonical, Add key_one, Add (validation_set 1), Add (validation_set 2),
      Add (validation_set 3)]
     = [validation_set 3, validation_set 2, validation_set 1, key_one, account_canonical] \<and>
   sequence_forming (describe example_config ValidationSet) \<and>
   fst ` set (sequence_of example_config
     [validation_set 3, validation_set 2, validation_set 1, key_one, account_canonical]
     ValidationSet [Some (HString ''canonical''), Some (HString ''base'')]) = {1, 2, 3} \<and>
   (\<exists>a. db_find_sequence example_config
          [validation_set 3, validation_set 2, validation_set 1, key_one, account_canonical]
          ValidationSet [Some (HString ''canonical''), Some (HString ''base'')] (Some 1) = Inr a \<and>
        sequence_number example_config a = Some 2)"
proof -
  let ?db = "[validation_set 3, validation_set 2, validation_set 1, key_one, account_canonical]"
  let ?subject = "[Some (HString ''canonical''), Some (HString ''base'')]"
  have reached: "run example_config []
     [Add account_canonical, Add key_one, Add (validation_set 1), Add (validation_set 2),
      Add (validation_set 3)] = ?db"
    by code_simp
  have sf: "sequence_forming (describe example_config ValidationSet)"
    by code_simp
  have stored: "fst ` set (sequence_of example_config ?db ValidationSet ?subject) = {1, 2, 3}"
    by code_simp
  from find_sequence_contract [OF sf, where db = ?db and subject = ?subject] stored
  have "\<exists>a. db_find_sequence example_config ?db ValidationSet ?subject (Some 1) = Inr a \<and>
        sequence_number example_config a = Some 2"
    by blast
  with reached sf stored show ?thesis by blast
qed

lemma find_sequence_examples:
  "db_find_sequence example_config
     [validation_set 3, validation_set 2, validation_set 1, key_one, account_canonical]
     ValidationSet [Some (HString ''canonical''), Some (HString ''base'')] (Some 1)
     = Inr (validation_set 2)"
  "db_find_sequence example_config
     [validation_set 3, validation_set 2, validation_set 1, key_one, account_canonical]
     ValidationSet [Some (HString ''canonical''), Some (HString ''base'')] None
     = Inr (validation_set 3)"
  "db_find_sequence example_config
     [validation_set 3, validation_set 2, validation_set 1, key_one, account_canonical]
     ValidationSet [Some (HString ''canonical''), Some (HString ''base'')] (Some 3)
     = Inl NotFound"
  by code_simp+

lemma db_add_invariant:
  assumes added: "db_add cfg db a = (Added, db')"
    and dist: "distinct (map (ident cfg) db)"
    and sub: "set db \<subseteq> A"
    and top: "\<forall>x\<in>A. \<exists>b\<in>set db. ident cfg b = ident cfg x \<and> revision x \<le> revision b"
  shows "distinct (map (ident cfg) db') \<and> set db' \<subseteq> insert a A \<and>
         (\<forall>x\<in>insert a A. \<exists>b\<in>set db'. ident cfg b = ident cfg x \<and> revision x \<le> revision b)"
proof -
  from added have db': "db' = a # filter (\<lambda>b. ident cfg b \<noteq> ident cfg a) db"
    and newer: "\<forall>old. db_find cfg db (atype a) (primary_key cfg a) = Inr old \<longrightarrow>
                  revision old < revision a"
    using db_add_Added by blast+
  have d: "distinct (map (ident cfg) db')"
    unfolding db' using dist by (auto simp: distinct_map_filter)
  have s: "set db' \<subseteq> insert a A"
    unfolding db' using sub by auto
  have t: "\<exists>b\<in>set db'. ident cfg b = ident cfg x \<and> revision x \<le> revision b"
    if x: "x \<in> insert a A" for x
  proof (cases "ident cfg x = ident cfg a")
    case True
    show ?thesis
    proof (cases "x = a")
      case True
      then show ?thesis unfolding db' by auto
    next
      case False
      with x have "x \<in> A" by simp
      with top obtain b where b: "b \<in> set db" "ident cfg b = ident cfg x" "revision x \<le> revision b"
        by blast
      with True have "ident cfg b = (atype a, primary_key cfg a)"
        by (simp add: ident_def)
      with dist b(1) have "db_find cfg db (atype a) (primary_key cfg a) = Inr b"
        by (rule db_find_unique)
      with newer have "revision b < revision a" by blast
      with b(3) have "revision x \<le> revision a" by simp
      with True show ?thesis unfolding db' by auto
    qed
  next
    case False
    with x have "x \<in> A" by auto
    with top obtain b where b: "b \<in> set db" "ident cfg b = ident cfg x" "revision x \<le> revision b"
      by blast
    with False have "b \<in> set db'" unfolding db' by simp
    with b show ?thesis by blast
  qed
  from d s t show ?thesis by blast
qed

lemma run_invariant:
  assumes "distinct (map (ident cfg) db)"
    and "set db \<subseteq> A"
    and "\<forall>x\<in>A. \<exists>b\<in>set db. ident cfg b = ident cfg x \<and> revision x \<le> revision b"
  shows "distinct (map (ident cfg) (run cfg db ops)) \<and>
         set (run cfg db ops) \<subseteq> A \<union> set (accepted cfg db ops) \<and>
         (\<forall>x\<in>A \<union> set (accepted cfg db ops).
            \<exists>b\<in>set (run cfg db ops). ident cfg b = ident cfg x \<and> revision x \<le> revision b)"
  using assms
proof (induction ops arbitrary: db A)
  case Nil
  then show ?case by simp
next
  case (Cons op ops)
  show ?case
  proof (cases op)
    case (Add a)
    show ?thesis
    proof (cases "fst (db_add cfg db a) = Added")
      case True
      then have added: "db_add cfg db a = (Added, snd (db_add cfg db a))"
        by (metis prod.collapse)
      from db_add_invariant [OF added Cons.prems]
      have inv: "distinct (map (ident cfg) (snd (db_add cfg db a)))"
        "set (snd (db_add cfg db a)) \<subseteq> insert a A"
        "\<forall>x\<in>insert a A. \<exists>b\<in>set (snd (db_add cfg db a)).
            ident cfg b = ident cfg x \<and> revision x \<le> revision b"
        by blast+
      let ?db1 = "snd (db_add cfg db a)"
      have r: "run cfg db (op # ops) = run cfg ?db1 ops"
        using Add by simp
      have "accepted cfg db (op # ops) = a # accepted cfg ?db1 ops"
        using Add True by simp
      then have s: "A \<union> set (accepted cfg db (op # ops)) = insert a A \<union> set (accepted cfg ?db1 ops)"
        by auto
      from Cons.IH [OF inv] show ?thesis
        unfolding r s .
    next
      case False
      then obtain e where "fst (db_add cfg db a) = Fails e"
        using db_add_outcome by blast
      then have "db_add cfg db a = (Fails e, snd (db_add cfg db a))"
        by (metis prod.collapse)
      then have same: "snd (db_add cfg db a) = db"
        by (rule db_add_Fails)
      from Cons.IH [OF Cons.prems] Add False same show ?thesis
        by simp
    qed
  next
    case (Find t pk)
    with Cons.IH [OF Cons.prems] show ?thesis by simp
  next
    case (FindSequence t subject after)
    with Cons.IH [OF Cons.prems] show ?thesis by simp
  qed
qed

text \<open>
  Claim C3. In the database reached from the empty one by any sequence of \<^verbatim>\<open>add\<close>,
  \<^verbatim>\<open>find\<close> and \<^verbatim>\<open>findSequence\<close> operations, no two stored assertions have the same
  (type, primary key); every stored assertion is one that was accepted; and for every
  assertion accepted so far, \<^verbatim>\<open>find\<close> for its (type, primary key) returns an accepted
  assertion of that key whose revision is at least as high, which is hence the highest
  revision accepted for the key.
\<close>

theorem one_assertion_per_primary_key:
  "distinct (map (ident cfg) (run cfg [] ops)) \<and>
   set (run cfg [] ops) \<subseteq> set (accepted cfg [] ops) \<and>
   (\<forall>a\<in>set (accepted cfg [] ops).
      \<exists>b. db_find cfg (run cfg [] ops) (atype a) (primary_key cfg a) = Inr b \<and>
          b \<in> set (accepted cfg [] ops) \<and> ident cfg b = ident cfg a \<and>
          revision a \<le> revision b \<and>
          (\<forall>c\<in>set (run cfg [] ops). ident cfg c = ident cfg a \<longrightarrow> c = b))"
proof -
  have inv: "distinct (map (ident cfg) (run cfg [] ops))"
    "set (run cfg [] ops) \<subseteq> set (accepted cfg [] ops)"
    "\<forall>x\<in>set (accepted cfg [] ops).
        \<exists>b\<in>set (run cfg [] ops). ident cfg b = ident cfg x \<and> revision x \<le> revision b"
    using run_invariant [of cfg "[]" "{}" ops] by simp_all
  have "\<exists>b. db_find cfg (run cfg [] ops) (atype a) (primary_key cfg a) = Inr b \<and>
          b \<in> set (accepted cfg [] ops) \<and> ident cfg b = ident cfg a \<and>
          revision a \<le> revision b \<and>
          (\<forall>c\<in>set (run cfg [] ops). ident cfg c = ident cfg a \<longrightarrow> c = b)"
    if "a \<in> set (accepted cfg [] ops)" for a
  proof -
    from inv(3) that obtain b where b: "b \<in> set (run cfg [] ops)"
      "ident cfg b = ident cfg a" "revision a \<le> revision b" by blast
    then have "ident cfg b = (atype a, primary_key cfg a)"
      by (simp add: ident_def)
    with inv(1) b(1) have "db_find cfg (run cfg [] ops) (atype a) (primary_key cfg a) = Inr b"
      by (rule db_find_unique)
    moreover have "\<forall>c\<in>set (run cfg [] ops). ident cfg c = ident cfg a \<longrightarrow> c = b"
      using inv(1) b(1,2) by (metis distinct_map inj_onD)
    ultimately show ?thesis using b inv(2) by blast
  qed
  with inv show ?thesis by blast
qed

theorem one_assertion_per_primary_key_witness:
  "model_widget 0 \<in> set (accepted example_config []
       [Add account_canonical, Add key_one, Add (model_widget 0), Add (model_widget 2),
        Find Model [], Add (model_widget 1)]) \<and>
   run example_config []
       [Add account_canonical, Add key_one, Add (model_widget 0), Add (model_widget 2),
        Find Model [], Add (model_widget 1)] = [model_widget 2, key_one, account_canonical] \<and>
   (\<exists>b. db_find example_config [model_widget 2, key_one, account_canonical]
            (atype (model_widget 0)) (primary_key example_config (model_widget 0)) = Inr b \<and>
        revision (model_widget 0) \<le> revision b)"
proof -
  let ?ops = "[Add account_canonical, Add key_one, Add (model_widget 0), Add (model_widget 2),
        Find Model [], Add (model_widget 1)]"
  have m: "model_widget 0 \<in> set (accepted example_config [] ?ops)"
    by code_simp
  have r: "run example_config [] ?ops = [model_widget 2, key_one, account_canonical]"
    by code_simp
  from one_assertion_per_primary_key [of example_config ?ops] m
  have "\<exists>b. db_find example_config (run example_config [] ?ops)
            (atype (model_widget 0)) (primary_key example_config (model_widget 0)) = Inr b \<and>
        revision (model_widget 0) \<le> revision b"
    by blast
  with m r show ?thesis by simp
qed

end
